theory Spec2Isabelle
  imports Main "HOL-Library.Word"
begin

unbundle bit_operations_syntax

section \<open>Data model (lib/misc.h, lib/midori.h, lib/cofb.h)\<close>

text \<open>
  The C typedefs: \<open>nibble\<close> and \<open>byte\<close> are \<open>uint8_t\<close>, \<open>dbyte\<close> is \<open>uint16_t\<close>,
  \<open>tn2\<close> is \<open>uint32_t\<close> and \<open>bloque\<close> is \<open>uint64_t\<close>. A key (\<open>bloques\<close>, a pointer to
  two blocks) is the pair \<open>(Ki[0], Ki[1])\<close>.
\<close>

type_synonym nibble = "8 word"
type_synonym byte = "8 word"
type_synonym dbyte = "16 word"
type_synonym tn2 = "32 word"
type_synonym bloque = "64 word"
type_synonym bloques = "bloque \<times> bloque"

text \<open>The macros of midori.h. \<open>n\<close> and \<open>r\<close> are suffixed: single letters stay variables.\<close>

definition n_c :: nat where "n_c = 4"
definition nxn :: nat where "nxn = 16"
definition r_c :: nat where "r_c = 16"

text \<open>
  The round constants \<open>beta[0x10]\<close> of midori.c (suffixed: \<open>beta\<close> is also a local of
  the drivers).
\<close>

definition beta_c :: "dbyte list" where
  "beta_c = [0x15b3, 0x78c0, 0xa435, 0x6213, 0x104f, 0xd170, 0x0266, 0x0bcc,
             0x9481, 0x40b8, 0x7197, 0x228e, 0x5130, 0xf8ca, 0xdf90, 0x7c81]"

definition maxPn :: tn2 where "maxPn = 0x80000000"

text \<open>\<open>poliN\<close> is the 33-bit literal \<open>0x10000001b\<close>: in C it has a 64-bit type.\<close>

definition poliN :: bloque where "poliN = 0x10000001b"

definition Sb0 :: bloque where "Sb0 = 0xcad3ebf789150246"
definition shuffleP :: bloque where "shuffleP = 0x0a5fe4b193c67d28"
definition shufflePInv :: bloque where "shufflePInv = 0x07e952bcf816ad43"

definition keyAdd :: "bloque \<Rightarrow> bloque \<Rightarrow> bloque" where
  "keyAdd A B = A XOR B"

text \<open>The module-scoped variables of cofb.h.\<close>

record field_state =
  mx2 :: tn2
  mx2x3 :: tn2
  mx2x3x3 :: tn2

section \<open>Field kernel (src/cofb.c)\<close>

definition maskGen :: "bloque \<Rightarrow> bloque" where
  "maskGen Y0 = drop_bit 16 Y0 AND 0xffffffff"

text \<open>
  \<open>gsuma\<close>: both operands are widened to the 64-bit type of \<open>poliN\<close>, the result is
  narrowed to \<open>tn2\<close> on assignment.
\<close>

definition gsuma :: "tn2 \<Rightarrow> tn2 \<Rightarrow> tn2" where
  "gsuma a b = ucast (((ucast a :: bloque) XOR poliN) XOR ((ucast b :: bloque) XOR poliN))"

text \<open>
  \<open>gdoble\<close>: \<open>a << 1\<close> is computed in 32 bits; in the first branch it is widened to
  XOR with \<open>poliN\<close>; the conditional expression has the 64-bit type and is narrowed to
  \<open>tn2\<close> on assignment.
\<close>

definition gdoble :: "tn2 \<Rightarrow> tn2" where
  "gdoble a =
     ucast (if a AND maxPn \<noteq> 0
            then (ucast (push_bit 1 a :: tn2) :: bloque) XOR poliN
            else (ucast (push_bit 1 a :: tn2) :: bloque))"

definition gtriple :: "tn2 \<Rightarrow> tn2" where
  "gtriple a = (let doble = gdoble a; triple = gsuma a doble in triple)"

text \<open>
  \<open>goper\<close> reads and writes the module variables: the model takes the field state and
  returns the mask with the new state. The parameter \<open>alf\<close> is unused in the source.
  Any \<open>finB\<close> outside 1..4 leaves \<open>mask = 0\<close> and the state as it was.
\<close>

definition goper :: "field_state \<Rightarrow> byte \<Rightarrow> tn2 \<Rightarrow> tn2 \<times> field_state" where
  "goper fs finB alf =
     (if finB = 1 then
        (let fs1 = fs\<lparr>mx2 := gdoble (mx2 fs)\<rparr> in (mx2 fs1, fs1))
      else if finB = 2 then
        (let fs1 = fs\<lparr>mx2x3 := gtriple (mx2 fs)\<rparr> in (mx2x3 fs1, fs1))
      else if finB = 3 then
        (let fs1 = fs\<lparr>mx2 := gdoble (mx2 fs)\<rparr>;
             fs2 = fs1\<lparr>mx2x3 := gtriple (mx2 fs1)\<rparr>
         in (mx2x3 fs2, fs2))
      else if finB = 4 then
        (let fs1 = fs\<lparr>mx2x3x3 := gtriple (gtriple (mx2 fs))\<rparr> in (mx2x3x3 fs1, fs1))
      else (0, fs))"

text \<open>
  \<open>mask\<close> (suffixed: \<open>mask\<close> is a constant of HOL): \<open>beta\<close> is narrowed to the \<open>tn2\<close>
  parameter of \<open>goper\<close>, the \<open>tn2\<close> result is widened to the returned \<open>bloque\<close>.
\<close>

definition mask_c :: "field_state \<Rightarrow> bloque \<Rightarrow> bloque \<Rightarrow> byte \<Rightarrow> bloque \<times> field_state" where
  "mask_c fs beta B finB =
     (let (enmsk, fs1) = goper fs finB (ucast beta) in (ucast enmsk, fs1))"

definition mulGY :: "bloque \<Rightarrow> bloque" where
  "mulGY Y =
     (let GY = push_bit 16 Y AND 0xffffffffffffffff;
          GY = GY OR (drop_bit 32 (drop_bit 16 Y) XOR (Y AND 0xffff))
      in GY)"

section \<open>Nibble primitives (src/midori.c)\<close>

text \<open>
  \<open>des = (nxn-pos-1)<<1\<close> is computed in \<open>int\<close> and narrowed to a byte; the shifts
  are done in two halves. For \<open>pos\<close> above 15 the C shift count leaves the word size
  (undefined in C; here the shifts give 0); no caller passes such a position.
\<close>

definition obtNibble :: "bloque \<Rightarrow> nibble \<Rightarrow> nibble" where
  "obtNibble S pos =
     (let des = (word_of_int ((int nxn - uint pos - 1) * 2) :: byte);
          val = ucast (drop_bit (unat des) (drop_bit (unat des) S) AND 0xf)
      in val)"

definition asgNibble :: "bloque \<Rightarrow> nibble \<Rightarrow> nibble \<Rightarrow> bloque" where
  "asgNibble S pos val =
     (let des = (word_of_int ((int nxn - uint pos - 1) * 2) :: byte);
          tmp = push_bit (unat des) (push_bit (unat des) (ucast val :: bloque));
          msk = push_bit (unat des) (push_bit (unat des) (0x000000000000000f :: bloque));
          mskS = msk AND S
      in (tmp XOR mskS) XOR S)"

section \<open>Key schedule and round functions (src/midori.c)\<close>

text \<open>
  \<open>keyGen\<close> writes the round keys into the array \<open>RK\<close> it is given and returns the
  whitening key: the model returns both. The loop counters \<open>i\<close>, \<open>j\<close> run over
  \<open>0..r-2\<close> and \<open>0..nxn-1\<close>; \<open>beta[i] >> (nxn-j-1)\<close> is narrowed to a nibble after
  the mask with 1; \<open>Ki[i & 0x1]\<close> selects a half of the key.
\<close>

definition keyGen :: "bloque list \<Rightarrow> bloques \<Rightarrow> bloque list \<times> bloque" where
  "keyGen RK Ki =
     (let WK = fst Ki XOR snd Ki;
          RK = fold (\<lambda>i RK.
                 fold (\<lambda>j RK.
                   let bit = (ucast (drop_bit (nxn - j - 1) (beta_c ! i) AND 0x1) :: nibble);
                       val = obtNibble (if i AND 0x1 = 0 then fst Ki else snd Ki) (of_nat j)
                   in RK[i := asgNibble (RK ! i) (of_nat j) (val XOR bit)])
                 [0..<nxn] RK)
               [0..<Suc (r_c - 2)] RK
      in (RK, WK))"

text \<open>
  \<open>subCell\<close>, \<open>shuffleCell\<close> and \<open>mixColumn\<close> build their result in a local (\<open>SC\<close>,
  \<open>SH\<close>, \<open>MC\<close>) that the source declares without an initial value and then writes
  nibble by nibble. The \<open>_from\<close> functions take the content the local starts with as
  their first argument. Every one of the 16 nibbles is assigned, so the result does not
  depend on it (lemmas \<open>subCell_from_indep\<close>, \<open>shuffleCell_from_indep\<close>,
  \<open>mixColumn_from_indep\<close> below), and the functions proper start from 0.
\<close>

definition subCell_from :: "bloque \<Rightarrow> bloque \<Rightarrow> bloque" where
  "subCell_from SC S =
     fold (\<lambda>i SC.
        let indiceI = obtNibble S (of_nat i);
            indiceJ = obtNibble Sb0 indiceI
        in asgNibble SC (of_nat i) indiceJ)
      [0..<nxn] SC"

definition subCell :: "bloque \<Rightarrow> bloque" where
  "subCell S = subCell_from 0 S"

definition shuffleCell_from :: "bloque \<Rightarrow> bloque \<Rightarrow> byte \<Rightarrow> bloque" where
  "shuffleCell_from SH S inv_c =
     fold (\<lambda>i SH.
        let indiceI = obtNibble (if inv_c = 0 then shuffleP else shufflePInv) (of_nat i);
            indiceJ = obtNibble S indiceI
        in asgNibble SH (of_nat i) indiceJ)
      [0..<nxn] SH"

definition shuffleCell :: "bloque \<Rightarrow> byte \<Rightarrow> bloque" where
  "shuffleCell S inv_c = shuffleCell_from 0 S inv_c"

text \<open>
  \<open>mixColumn\<close>: \<open>i\<close> steps through 0, 4, 8, 12; the \<open>while((j--)>0)\<close> loop visits
  \<open>j = 3, 2, 1, 0\<close>; \<open>tmp\<close> is a \<open>bloque\<close>, narrowed to the nibble parameter of
  \<open>asgNibble\<close>.
\<close>

definition mixColumn_from :: "bloque \<Rightarrow> bloque \<Rightarrow> bloque" where
  "mixColumn_from MC S =
     fold (\<lambda>i MC.
        let tmp = fold (\<lambda>j tmp. tmp XOR ucast (obtNibble S (of_nat (i + j))))
                    (rev [0..<n_c]) (0 :: bloque)
        in fold (\<lambda>j MC.
             asgNibble MC (of_nat (i + j))
               (ucast (tmp XOR ucast (obtNibble S (of_nat (i + j))))))
             [0..<n_c] MC)
      (map (\<lambda>c. c * n_c) [0..<nxn div n_c]) MC"

definition mixColumn :: "bloque \<Rightarrow> bloque" where
  "mixColumn S = mixColumn_from 0 S"

text \<open>
  \<open>midori\<close>: the array \<open>RK\<close> is a local without initial value, filled by \<open>keyGen\<close>;
  \<open>midori_from\<close> takes its starting content, \<open>midori\<close> starts from zeros (lemma
  \<open>midori_from_indep\<close>). The parameter \<open>inv\<close> is suffixed (\<open>inv\<close> is a constant of
  HOL). The constant \<open>-1\<close> passed to \<open>shuffleCell\<close> is the byte 255.
\<close>

definition midori_from :: "bloque list \<Rightarrow> bloque \<Rightarrow> bloques \<Rightarrow> byte \<Rightarrow> bloque" where
  "midori_from RK0 S Ki inv_c =
     (let (RK, WK) = keyGen RK0 Ki;
          S = keyAdd S WK;
          S = fold (\<lambda>i S.
                let S = subCell S;
                    S = (if inv_c = 0 then shuffleCell S 0 else mixColumn S);
                    S = (if inv_c = 0 then mixColumn S else shuffleCell S (- 1));
                    S = keyAdd S (RK ! i)
                in S)
              [0..<Suc (r_c - 2)] S;
          S = subCell S;
          Y = keyAdd S WK
      in Y)"

definition midori :: "bloque \<Rightarrow> bloques \<Rightarrow> byte \<Rightarrow> bloque" where
  "midori S Ki inv_c = midori_from (replicate r_c 0) S Ki inv_c"

section \<open>The COFB drivers (src/cofb.c)\<close>

text \<open>
  \<open>COFB\<close> and \<open>dCOFB\<close> read their blocks from standard input inside the loop. Each
  iteration performs one group of \<open>scanf\<close>/\<open>sscanf\<close> calls, which leaves a value in
  \<open>B\<close>, and then tests \<open>isblank(chr)!=0 || chr=='\n' || hayNL(blq)!=0\<close>. The model
  receives the input already cut into these reads: a read is the block left in \<open>B\<close>
  together with the outcome of the boundary test. The character-level behaviour of
  \<open>scanf\<close> (and what it does at the end of the input) is not modelled: when the reads
  run out before the loop has ended the model returns \<open>None\<close>.

  The locals \<open>exp\<close>, \<open>aom\<close>, \<open>Y\<close>, the module variables and the blocks printed so
  far form the loop state.
\<close>

type_synonym read = "bloque \<times> bool"

record cofb_state =
  st_exp :: byte
  st_aom :: byte
  st_Y :: bloque
  st_field :: field_state
  st_out :: "bloque list"

text \<open>The statements before the loop: \<open>exp = 1\<close>, \<open>aom = 0\<close>, \<open>Y\<close>, \<open>beta\<close>, \<open>mx2 = beta\<close>.\<close>

definition COFB_init :: "field_state \<Rightarrow> bloques \<Rightarrow> bloque \<Rightarrow> bloque \<times> cofb_state" where
  "COFB_init fs K N =
     (let Y = midori N K 0;
          beta = maskGen Y;
          fs = fs\<lparr>mx2 := ucast beta\<rparr>
      in (beta, \<lparr>st_exp = 1, st_aom = 0, st_Y = Y, st_field = fs, st_out = []\<rparr>))"

text \<open>The two places of the loop body that change \<open>exp\<close>: the boundary test and the \<open>switch\<close>.\<close>

definition read_advance :: "byte \<Rightarrow> bool \<Rightarrow> byte" where
  "read_advance e boundary = (if boundary then e + 1 else e)"

definition switch_advance :: "byte \<Rightarrow> byte" where
  "switch_advance e = (if e = 0 then e + 1 else if e = 2 then e + 1 else if e = 4 then e + 1 else e)"

definition COFB_body :: "bloques \<Rightarrow> bloque \<Rightarrow> cofb_state \<Rightarrow> read \<Rightarrow> cofb_state" where
  "COFB_body K beta st rd =
     (let B = fst rd;
          e = read_advance (st_exp st) (snd rd);
          aom = (if snd rd then st_aom st + 1 else st_aom st);
          (msk, fs) = mask_c (st_field st) beta B e;
          GY = mulGY (st_Y st);
          BGY = B XOR GY;
          X = push_bit 32 msk XOR BGY;
          out = (if e > 2 then (let C = st_Y st XOR B in st_out st @ [C]) else st_out st);
          Y = midori X K 0;
          e = switch_advance e
      in \<lparr>st_exp = e, st_aom = aom, st_Y = Y, st_field = fs, st_out = out\<rparr>)"

fun COFB_loop :: "bloques \<Rightarrow> bloque \<Rightarrow> cofb_state \<Rightarrow> read list \<Rightarrow> cofb_state option" where
  "COFB_loop K beta st [] = (if st_exp st < 4 then None else Some st)"
| "COFB_loop K beta st (rd # rds) =
     (if st_exp st < 4 then COFB_loop K beta (COFB_body K beta st rd) rds else Some st)"

text \<open>
  \<open>COFB\<close> returns the tag; the model also returns what was printed after \<open>C:\<close> and the
  module variables as the call leaves them.
\<close>

definition COFB :: "field_state \<Rightarrow> bloques \<Rightarrow> bloque \<Rightarrow> read list
    \<Rightarrow> (bloque list \<times> bloque \<times> field_state) option" where
  "COFB fs K N rds =
     (let (beta, st) = COFB_init fs K N in
      case COFB_loop K beta st rds of
        None \<Rightarrow> None
      | Some st \<Rightarrow> (let T = st_Y st in Some (st_out st, T, st_field st)))"

definition dCOFB_body :: "bloques \<Rightarrow> bloque \<Rightarrow> cofb_state \<Rightarrow> read \<Rightarrow> cofb_state" where
  "dCOFB_body K beta st rd =
     (let B = fst rd;
          e = read_advance (st_exp st) (snd rd);
          aom = (if snd rd then st_aom st + 1 else st_aom st);
          (msk, fs) = mask_c (st_field st) beta B e;
          GY = mulGY (st_Y st);
          BGY = B XOR GY;
          (BGY, out) = (if e > 2
                        then (let BGY = st_Y st XOR BGY; C = st_Y st XOR B in (BGY, st_out st @ [C]))
                        else (BGY, st_out st));
          X = push_bit 32 msk XOR BGY;
          Y = midori X K 0;
          e = switch_advance e
      in \<lparr>st_exp = e, st_aom = aom, st_Y = Y, st_field = fs, st_out = out\<rparr>)"

fun dCOFB_loop :: "bloques \<Rightarrow> bloque \<Rightarrow> cofb_state \<Rightarrow> read list \<Rightarrow> cofb_state option" where
  "dCOFB_loop K beta st [] = (if st_exp st < 4 then None else Some st)"
| "dCOFB_loop K beta st (rd # rds) =
     (if st_exp st < 4 then dCOFB_loop K beta (dCOFB_body K beta st rd) rds else Some st)"

text \<open>
  \<open>dCOFB\<close> has the same statements before its loop. Its parameter \<open>T\<close> is the
  received tag; its local \<open>T_\<close> is written \<open>T'\<close>.
\<close>

definition dCOFB :: "field_state \<Rightarrow> bloques \<Rightarrow> bloque \<Rightarrow> bloque \<Rightarrow> read list
    \<Rightarrow> (bloque list \<times> bloque \<times> field_state) option" where
  "dCOFB fs K N T rds =
     (let (beta, st) = COFB_init fs K N in
      case dCOFB_loop K beta st rds of
        None \<Rightarrow> None
      | Some st \<Rightarrow> (let T' = st_Y st in Some (st_out st, T', st_field st)))"

section \<open>The cipher as the specification words it\<close>

text \<open>
  Nibble \<open>p\<close> of a block is \<open>(B >> (4 * (15 - p))) & 0xF\<close>; \<open>spec_block f\<close> is the block
  whose nibble at each position \<open>p\<close> is \<open>f p\<close>.
\<close>

definition spec_nibble :: "bloque \<Rightarrow> nat \<Rightarrow> nibble" where
  "spec_nibble B p = ucast (drop_bit (4 * (15 - p)) B AND 0xF)"

definition spec_block :: "(nat \<Rightarrow> nibble) \<Rightarrow> bloque" where
  "spec_block f = fold (\<lambda>p B. B OR push_bit (4 * (15 - p)) (ucast (f p AND 0xF))) [0..<16] 0"

text \<open>
  Round key \<open>i\<close>: nibble \<open>j\<close> is nibble \<open>j\<close> of \<open>K0\<close> (even \<open>i\<close>) or \<open>K1\<close> (odd \<open>i\<close>),
  with bit \<open>15 - j\<close> of \<open>beta[i]\<close> added to its low bit.
\<close>

definition spec_RK :: "bloque \<Rightarrow> bloque \<Rightarrow> nat \<Rightarrow> bloque" where
  "spec_RK K0 K1 i =
     spec_block (\<lambda>j. spec_nibble (if even i then K0 else K1) j
                      XOR (if bit (beta_c ! i) (15 - j) then 1 else 0))"

text \<open>SubCell, ShuffleCell and MixColumn, nibble by nibble.\<close>

definition spec_SubCell :: "bloque \<Rightarrow> bloque" where
  "spec_SubCell S = spec_block (\<lambda>p. spec_nibble Sb0 (unat (spec_nibble S p)))"

definition spec_ShuffleCell :: "bloque \<Rightarrow> bloque" where
  "spec_ShuffleCell S = spec_block (\<lambda>p. spec_nibble S (unat (spec_nibble shuffleP p)))"

definition spec_MixColumn :: "bloque \<Rightarrow> bloque" where
  "spec_MixColumn S =
     spec_block (\<lambda>p. let c = 4 * (p div 4);
                          parity = spec_nibble S c XOR spec_nibble S (c + 1)
                                   XOR spec_nibble S (c + 2) XOR spec_nibble S (c + 3)
                      in parity XOR spec_nibble S p)"

text \<open>
  The cipher: whitening with \<open>WK = K0 XOR K1\<close>, 15 rounds of SubCell, ShuffleCell,
  MixColumn and round key, a final SubCell and the final whitening.
\<close>

definition spec_midori :: "bloque \<Rightarrow> bloque \<Rightarrow> bloque \<Rightarrow> bloque" where
  "spec_midori S K0 K1 =
     (let WK = K0 XOR K1;
          S = S XOR WK;
          S = fold (\<lambda>i S. spec_MixColumn (spec_ShuffleCell (spec_SubCell S)) XOR spec_RK K0 K1 i)
                [0..<15] S;
          S = spec_SubCell S
      in S XOR WK)"

section \<open>A concrete run\<close>

text \<open>
  A key and a nonce, zero-initialised module variables, and an input of three reads: one
  block ending at a boundary, then two blocks of which the second ends at a boundary.
  \<open>ex_cs\<close> and \<open>ex_T\<close> are the ciphertext blocks and the tag \<open>COFB\<close> gives on it.
\<close>

definition ex_fs :: field_state where
  "ex_fs = \<lparr>mx2 = 0, mx2x3 = 0, mx2x3x3 = 0\<rparr>"
definition ex_K :: bloques where
  "ex_K = (0x0123456789ABCDEF, 0xFEDCBA9876543210)"
definition ex_N :: bloque where
  "ex_N = 0x0123456789ABCDEF"
definition ex_reads :: "read list" where
  "ex_reads = [(0x1111111111111111, True), (0xAAAABBBBCCCCDDDD, False), (0x2222222222222222, True)]"
definition ex_cs :: "bloque list" where
  "ex_cs = fst (the (COFB ex_fs ex_K ex_N ex_reads))"
definition ex_T :: bloque where
  "ex_T = fst (snd (the (COFB ex_fs ex_K ex_N ex_reads)))"

section \<open>Proof devices\<close>

text \<open>The bit offset of nibble position \<open>p\<close>.\<close>

definition nib_sh :: "nibble \<Rightarrow> nat" where
  "nib_sh p = 4 * (15 - unat p)"

text \<open>Overwriting one module variable inside a loop state.\<close>

definition set_x3x3 :: "tn2 \<Rightarrow> cofb_state \<Rightarrow> cofb_state" where
  "set_x3x3 b st = st\<lparr>st_field := (st_field st)\<lparr>mx2x3x3 := b\<rparr>\<rparr>"

definition set_x3 :: "tn2 \<Rightarrow> cofb_state \<Rightarrow> cofb_state" where
  "set_x3 a st = st\<lparr>st_field := (st_field st)\<lparr>mx2x3 := a\<rparr>\<rparr>"

text \<open>The value mixColumn writes at position p.\<close>

definition mix_val :: "bloque \<Rightarrow> nat \<Rightarrow> nibble" where
  "mix_val S p =
     (let c = 4 * (p div 4)
      in obtNibble S (of_nat (c + 3)) XOR obtNibble S (of_nat (c + 2))
         XOR obtNibble S (of_nat (c + 1)) XOR obtNibble S (of_nat c)
         XOR obtNibble S (of_nat p))"

text \<open>The value keyGen writes at nibble j of round key i.\<close>

definition rk_val :: "bloques \<Rightarrow> nat \<Rightarrow> nat \<Rightarrow> nibble" where
  "rk_val Ki i j =
     obtNibble (if i AND 0x1 = 0 then fst Ki else snd Ki) (of_nat j)
       XOR (ucast (drop_bit (nxn - j - 1) (beta_c ! i) AND 0x1) :: nibble)"

text \<open>The inverse of the feedback map.\<close>

definition mulGY_inv :: "bloque \<Rightarrow> bloque" where
  "mulGY_inv Z = drop_bit 16 Z OR push_bit 48 ((Z AND 0xffff) XOR (drop_bit 16 Z AND 0xffff))"

section \<open>Constants as bit masks\<close>

lemma c_msb: "(0x80000000 :: tn2) = 2 ^ 31"
  by simp

lemma c_ffff: "(0xffff :: bloque) = mask 16"
  by (simp add: mask_eq_exp_minus_1)

lemma c_f: "(0xf :: bloque) = mask 4"
  by (simp add: mask_eq_exp_minus_1)

lemma c_all: "(0xffffffffffffffff :: bloque) = - 1"
  by simp

section \<open>The field kernel\<close>

lemma top_bit_test: "(a :: tn2) AND 0x80000000 \<noteq> 0 \<longleftrightarrow> bit a 31"
  using and_exp_eq_0_iff_not_bit [of a 31] by simp

lemma narrow_widen: "(ucast (ucast (x :: tn2) :: bloque) :: tn2) = x"
  by (rule bit_word_eqI) (simp add: bit_simps)

lemma narrow_poliN: "(ucast ((ucast (x :: tn2) :: bloque) XOR 0x10000001b) :: tn2) = x XOR 0x1b"
proof -
  have "(ucast (0x10000001b :: bloque) :: tn2) = 0x1b"
    by simp
  then show ?thesis
    by (simp only: unsigned_xor_eq narrow_widen)
qed

lemma gdoble_eq: "gdoble a = (if bit a 31 then push_bit 1 a XOR 0x1B else push_bit 1 a)"
  unfolding gdoble_def maxPn_def poliN_def
  by (simp only: top_bit_test if_distrib [of ucast] narrow_poliN narrow_widen)

lemma gsuma_eq: "gsuma a b = a XOR b"
proof -
  have "((ucast a :: bloque) XOR poliN) XOR ((ucast b :: bloque) XOR poliN) = ucast a XOR ucast b"
    by (simp add: ac_simps)
  then show ?thesis
    unfolding gsuma_def by (simp add: unsigned_xor_eq narrow_widen)
qed

lemma gtriple_eq: "gtriple a = a XOR gdoble a"
  by (simp add: gtriple_def gsuma_eq)

text \<open>
  C7. For every 32-bit \<open>a\<close>, \<open>gdoble a\<close> is \<open>(a << 1) XOR 0x1B\<close> when bit 31 of \<open>a\<close>
  is set and \<open>a << 1\<close> otherwise, the shift being the 32-bit one (the bit shifted out
  is dropped); read as integers, the result is \<open>2 * a\<close>, XORed with \<open>0x1B\<close> in the
  first case, reduced modulo \<open>2 ^ 32\<close>.
\<close>

theorem gdoble_spec:
  "gdoble a = (if bit a 31 then (push_bit 1 a :: tn2) XOR 0x1B else push_bit 1 a)
   \<and> uint (gdoble a) = (if bit a 31 then (2 * uint a) XOR 0x1B else 2 * uint a) mod 2 ^ 32"
proof
  show w: "gdoble a = (if bit a 31 then (push_bit 1 a :: tn2) XOR 0x1B else push_bit 1 a)"
    by (rule gdoble_eq)
  have d: "(push_bit 1 a :: tn2) = word_of_int (2 * uint a)"
    by (simp add: push_bit_eq_mult)
  have x: "(word_of_int (2 * uint a) :: tn2) XOR 0x1B = word_of_int ((2 * uint a) XOR 0x1B)"
    by (simp only: word_of_int_numeral [symmetric] word_xor_def uint_word_of_int_eq)
       (simp add: word_of_int_eq_iff take_bit_xor)
  show "uint (gdoble a) = (if bit a 31 then (2 * uint a) XOR 0x1B else 2 * uint a) mod 2 ^ 32"
    unfolding w d by (simp only: x if_distrib [of uint] uint_word_of_int) simp
qed

section \<open>The feedback map\<close>

lemma mulGY_eq: "mulGY Y = push_bit 16 Y OR (drop_bit 48 Y XOR (Y AND 0xffff))"
  unfolding mulGY_def Let_def c_all by simp

lemma rot_idx: "n < 64 \<Longrightarrow> (n + 48) mod 64 = (if n < 16 then n + 48 else n - 16)" for n :: nat
  by (auto simp add: mod_if not_less le_mod_geq)

lemma mulGY_rot: "mulGY Y = word_rotl 16 Y XOR (Y AND 0xffff)"
  unfolding mulGY_eq c_ffff
proof (rule bit_word_eqI)
  fix n assume "n < LENGTH(64)"
  then have n64: "n < 64" by simp
  show "bit (push_bit 16 Y OR (drop_bit 48 Y XOR (Y AND mask 16))) n
      = bit (word_rotl 16 Y XOR (Y AND mask 16)) n"
  proof (cases "n < 16")
    case True
    then show ?thesis
      using n64 by (simp add: bit_simps bit_word_rotl_iff rot_idx add.commute)
  next
    case False
    then show ?thesis
      using n64 by (auto simp add: bit_simps bit_word_rotl_iff rot_idx dest: bit_imp_le_length)
  qed
qed

lemma mulGY_inv_left: "mulGY_inv (mulGY Y) = Y"
  unfolding mulGY_eq mulGY_inv_def c_ffff
  by (rule bit_word_eqI) (auto simp add: bit_simps)

text \<open>
  C6. For every 64-bit \<open>Y\<close>, the low 16 bits of \<open>mulGY Y\<close> are
  \<open>(Y >> 48) XOR (Y AND 0xFFFF)\<close> and its other bits are those of \<open>Y << 16\<close>: it
  is \<open>Y << 16\<close> with the low 16 bits overwritten by that value. Equivalently it is
  \<open>Y\<close> rotated left by 16 with the low 16 bits of \<open>Y\<close> XORed into the low 16 bits
  (which after the rotation hold the top 16 bits of \<open>Y\<close>).
\<close>

theorem mulGY_spec:
  "take_bit 16 (mulGY Y) = drop_bit 48 Y XOR (Y AND 0xffff)
   \<and> drop_bit 16 (mulGY Y) = drop_bit 16 (push_bit 16 Y :: bloque)
   \<and> mulGY Y = (push_bit 16 Y AND NOT 0xffff) OR (drop_bit 48 Y XOR (Y AND 0xffff))
   \<and> mulGY Y = word_rotl 16 Y XOR (Y AND 0xffff)"
proof (intro conjI)
  show "take_bit 16 (mulGY Y) = drop_bit 48 Y XOR (Y AND 0xffff)"
    unfolding mulGY_eq c_ffff
    by (rule bit_word_eqI) (auto simp add: bit_simps dest: bit_imp_le_length)
  show "drop_bit 16 (mulGY Y) = drop_bit 16 (push_bit 16 Y :: bloque)"
    unfolding mulGY_eq c_ffff
    by (rule bit_word_eqI) (auto simp add: bit_simps dest: bit_imp_le_length)
  show "mulGY Y = (push_bit 16 Y AND NOT 0xffff) OR (drop_bit 48 Y XOR (Y AND 0xffff))"
    unfolding mulGY_eq c_ffff
    by (rule bit_word_eqI) (auto simp add: bit_simps)
  show "mulGY Y = word_rotl 16 Y XOR (Y AND 0xffff)"
    by (rule mulGY_rot)
qed

text \<open>
  C10. \<open>mulGY\<close> is injective: \<open>mulGY Y = mulGY Y'\<close> implies \<open>Y = Y'\<close>; it is a
  bijection on the 64-bit blocks.
\<close>

theorem mulGY_bijective:
  "(\<forall>Y Y'. mulGY Y = mulGY Y' \<longrightarrow> Y = Y') \<and> bij mulGY"
proof
  show "\<forall>Y Y'. mulGY Y = mulGY Y' \<longrightarrow> Y = Y'"
    by (metis mulGY_inv_left)
  then have "inj mulGY"
    by (simp add: inj_on_def)
  then show "bij mulGY"
    by (simp add: bij_def finite_UNIV_inj_surj)
qed

theorem mulGY_bijective_witness:
  "mulGY 0x0123456789abcdef = mulGY (0x0123456789abcdee + 1)
   \<and> (0x0123456789abcdef :: bloque) = 0x0123456789abcdee + 1 \<and> bij mulGY"
  using mulGY_bijective by simp

section \<open>The mask\<close>

text \<open>
  C9. \<open>mask\<close> ignores its block argument: for every \<open>beta\<close>, counter \<open>finB\<close>, field
  state and blocks \<open>B\<close>, \<open>B'\<close>, the calls \<open>mask(beta, B, finB)\<close> and
  \<open>mask(beta, B', finB)\<close> return the same value and leave the same field state, and
  both are those of \<open>goper(finB, beta)\<close> (its 32-bit result widened to a block).
\<close>

theorem mask_ignores_block:
  "mask_c fs beta B finB = mask_c fs beta B' finB
   \<and> fst (mask_c fs beta B finB) = ucast (fst (goper fs finB (ucast beta)))
   \<and> snd (mask_c fs beta B finB) = snd (goper fs finB (ucast beta))"
  by (simp add: mask_c_def split_beta)

section \<open>Nibble primitives: reading and writing\<close>

lemma unat_lt16: "p < 16 \<Longrightarrow> unat p < 16" for p :: nibble
  by (simp add: word_less_nat_alt)

lemma des_unat:
  fixes p :: nibble
  assumes "p < 16"
  shows "unat (word_of_int ((int nxn - uint p - 1) * 2) :: byte) = 2 * (15 - unat p)"
proof -
  have u: "unat p < 16" using assms by (rule unat_lt16)
  have "(int nxn - uint p - 1) * 2 = int (2 * (15 - unat p))"
    using u by (simp add: nxn_def)
  then have "(word_of_int ((int nxn - uint p - 1) * 2) :: byte) = of_nat (2 * (15 - unat p))"
    by (simp only: of_int_of_nat_eq)
  moreover have "unat (of_nat (2 * (15 - unat p)) :: byte) = 2 * (15 - unat p)"
    by (simp only: unat_of_nat) simp
  ultimately show ?thesis by simp
qed

lemma obtNibble_eq:
  "p < 16 \<Longrightarrow> obtNibble S p = ucast (drop_bit (nib_sh p) S AND mask 4)"
  unfolding obtNibble_def Let_def c_f
  by (simp only: des_unat nib_sh_def drop_bit_drop_bit) simp

lemma asgNibble_eq:
  "p < 16 \<Longrightarrow> asgNibble S p v =
     (push_bit (nib_sh p) (ucast v) XOR (push_bit (nib_sh p) (mask 4) AND S)) XOR S"
  unfolding asgNibble_def Let_def c_f
  by (simp only: des_unat nib_sh_def push_bit_push_bit) simp

lemma bit_obtNibble:
  "p < 16 \<Longrightarrow> bit (obtNibble S p) k \<longleftrightarrow> k < 4 \<and> bit S (nib_sh p + k)"
  by (auto simp add: obtNibble_eq bit_simps dest: bit_imp_le_length)

lemma bit_lt16: "v < 16 \<Longrightarrow> bit v k \<Longrightarrow> k < 4" for v :: nibble
proof -
  assume "v < 16" and b: "bit v k"
  then have "v < 2 ^ 4" by simp
  then have "v AND mask 4 = v" by (rule less_mask_eq)
  then have "bit (v AND mask 4) k" using b by simp
  then show "k < 4" by (simp add: bit_simps)
qed

lemma obtNibble_lt16: "obtNibble S p < 16"
proof -
  have "obtNibble S p = obtNibble S p AND mask 4"
    unfolding obtNibble_def Let_def c_f
    by (rule bit_word_eqI) (auto simp add: bit_simps)
  moreover have "obtNibble S p AND mask 4 < 2 ^ 4"
    by (rule and_mask_less') simp
  ultimately show ?thesis by simp
qed

lemma bit_asgNibble:
  "p < 16 \<Longrightarrow> v < 16 \<Longrightarrow> m < 64 \<Longrightarrow> bit (asgNibble S p v) m \<longleftrightarrow>
     (if nib_sh p \<le> m \<and> m < nib_sh p + 4 then bit v (m - nib_sh p) else bit S m)"
  by (auto simp add: asgNibble_eq bit_simps dest: bit_lt16)

lemma nib_sh_bound: "p < 16 \<Longrightarrow> k < 4 \<Longrightarrow> nib_sh p + k < 64"
  by (drule unat_lt16) (simp add: nib_sh_def)

lemma nib_sh_apart:
  "p < 16 \<Longrightarrow> q < 16 \<Longrightarrow> q \<noteq> p \<Longrightarrow> k < 4 \<Longrightarrow>
     \<not> (nib_sh p \<le> nib_sh q + k \<and> nib_sh q + k < nib_sh p + 4)"
proof -
  assume "p < 16" "q < 16" "q \<noteq> p" "k < 4"
  then have "unat p < 16" "unat q < 16" "unat q \<noteq> unat p"
    by (simp_all add: unat_lt16 word_unat_eq_iff)
  with \<open>k < 4\<close> show ?thesis
    unfolding nib_sh_def by arith
qed

lemma bit_asgNibble_at:
  "p < 16 \<Longrightarrow> v < 16 \<Longrightarrow> k < 4 \<Longrightarrow> bit (asgNibble S p v) (nib_sh p + k) \<longleftrightarrow> bit v k"
  using nib_sh_bound [of p k] by (simp add: bit_asgNibble)

lemma bit_asgNibble_off:
  "p < 16 \<Longrightarrow> v < 16 \<Longrightarrow> q < 16 \<Longrightarrow> q \<noteq> p \<Longrightarrow> k < 4 \<Longrightarrow>
     bit (asgNibble S p v) (nib_sh q + k) \<longleftrightarrow> bit S (nib_sh q + k)"
  using nib_sh_bound [of q k] nib_sh_apart [of p q k] by (auto simp add: bit_asgNibble)

lemma obt_asg_same: "p < 16 \<Longrightarrow> v < 16 \<Longrightarrow> obtNibble (asgNibble S p v) p = v"
proof (rule bit_word_eqI)
  fix k
  assume pv: "p < 16" "v < 16"
  show "bit (obtNibble (asgNibble S p v) p) k = bit v k"
  proof (cases "k < 4")
    case True
    with pv show ?thesis by (simp add: bit_obtNibble bit_asgNibble_at)
  next
    case False
    with pv show ?thesis by (auto simp add: bit_obtNibble dest: bit_lt16)
  qed
qed

lemma obt_asg_other:
  "p < 16 \<Longrightarrow> v < 16 \<Longrightarrow> q < 16 \<Longrightarrow> q \<noteq> p \<Longrightarrow> obtNibble (asgNibble S p v) q = obtNibble S q"
proof (rule bit_word_eqI)
  fix k
  assume a: "p < 16" "v < 16" "q < 16" "q \<noteq> p"
  show "bit (obtNibble (asgNibble S p v) q) k = bit (obtNibble S q) k"
  proof (cases "k < 4")
    case True
    with a show ?thesis by (simp add: bit_obtNibble bit_asgNibble_off)
  next
    case False
    with a show ?thesis by (simp add: bit_obtNibble)
  qed
qed

lemma asg_obt_same: "p < 16 \<Longrightarrow> asgNibble S p (obtNibble S p) = S"
  by (rule bit_word_eqI)
     (auto simp add: bit_obtNibble bit_asgNibble obtNibble_lt16)

text \<open>
  C8. Nibble round-trip: for every block \<open>S\<close>, position \<open>p < 16\<close> and 4-bit value
  \<open>v\<close>, reading position \<open>p\<close> of \<open>asgNibble S p v\<close> yields \<open>v\<close>; writing back
  the nibble read at \<open>p\<close> yields \<open>S\<close>; and at every other position \<open>q\<close> the nibble
  of \<open>asgNibble S p v\<close> is the nibble of \<open>S\<close>.
\<close>

theorem nibble_round_trip:
  "p < 16 \<and> v < 16 \<longrightarrow>
     obtNibble (asgNibble S p v) p = v
     \<and> asgNibble S p (obtNibble S p) = S
     \<and> (\<forall>q. q < 16 \<and> q \<noteq> p \<longrightarrow> obtNibble (asgNibble S p v) q = obtNibble S q)"
  by (simp add: obt_asg_same obt_asg_other asg_obt_same)

theorem nibble_round_trip_witness:
  "(3 :: nibble) < 16 \<and> (0xf :: nibble) < 16
   \<and> obtNibble (asgNibble 0x0123456789abcdef 3 0xf) 3 = 0xf
   \<and> asgNibble 0x0123456789abcdef 3 (obtNibble 0x0123456789abcdef 3) = 0x0123456789abcdef
   \<and> obtNibble (asgNibble 0x0123456789abcdef 3 0xf) 4 = obtNibble 0x0123456789abcdef 4"
  using nibble_round_trip [of 3 "0xf" "0x0123456789abcdef"] by simp

section \<open>Blocks nibble by nibble\<close>

lemma pos_of_nat:
  assumes "i < 16"
  shows "(of_nat i :: nibble) < 16" and "unat (of_nat i :: nibble) = i" and "nib_sh (of_nat i) = 4 * (15 - i)"
proof -
  show u: "unat (of_nat i :: nibble) = i"
    using assms by (simp add: unat_of_nat)
  then show "(of_nat i :: nibble) < 16"
    using assms by (simp add: word_less_nat_alt)
  show "nib_sh (of_nat i) = 4 * (15 - i)"
    by (simp only: nib_sh_def u)
qed

lemma pos_of_nat_neq: "i < 16 \<Longrightarrow> j < 16 \<Longrightarrow> i \<noteq> j \<Longrightarrow> (of_nat i :: nibble) \<noteq> of_nat j"
  by (metis pos_of_nat(2))

lemma pos_unat: "(of_nat (unat p) :: nibble) = p"
  by simp

lemma fold_snoc: "fold f [0..<Suc n] B = f n (fold f [0..<n] B)"
  by simp

lemma fold_asg_nibble:
  assumes f: "\<And>i. i < 16 \<Longrightarrow> f i < 16"
  shows "n \<le> 16 \<Longrightarrow> p < 16 \<Longrightarrow>
     obtNibble (fold (\<lambda>i B. asgNibble B (of_nat i) (f i)) [0..<n] B0) (of_nat p)
       = (if p < n then f p else obtNibble B0 (of_nat p))"
proof (induction n)
  case 0
  then show ?case by simp
next
  case (Suc n)
  then have n: "n < 16" by simp
  show ?case
  proof (cases "p = n")
    case True
    then show ?thesis
      using n by (simp only: fold_snoc) (simp add: obt_asg_same pos_of_nat f)
  next
    case False
    then have "(of_nat p :: nibble) \<noteq> of_nat n"
      using n Suc.prems by (simp add: pos_of_nat_neq)
    then show ?thesis
      using n Suc False by (simp only: fold_snoc) (simp add: obt_asg_other pos_of_nat f)
  qed
qed

lemma block_ext:
  assumes "\<And>p. p < 16 \<Longrightarrow> obtNibble A (of_nat p) = obtNibble B (of_nat p)"
  shows "A = B"
proof (rule bit_word_eqI)
  fix m assume "m < LENGTH(64)"
  then have m: "m < 64" by simp
  let ?p = "15 - m div 4"
  have p: "?p < 16" by simp
  have sh: "nib_sh (of_nat ?p) + m mod 4 = m"
    using m by (simp only: pos_of_nat(3) [OF p]) arith
  have "bit (obtNibble A (of_nat ?p)) (m mod 4) = bit (obtNibble B (of_nat ?p)) (m mod 4)"
    by (simp only: assms [OF p])
  then show "bit A m = bit B m"
    by (simp add: bit_obtNibble pos_of_nat(1) [OF p] sh)
qed

lemma spec_nibble_obt: "p < 16 \<Longrightarrow> spec_nibble B p = obtNibble B (of_nat p)"
  by (simp add: spec_nibble_def obtNibble_eq pos_of_nat c_f)

lemma bit_fold_or:
  "bit (fold (\<lambda>p B. B OR g p) [0..<n] (B0 :: bloque)) m \<longleftrightarrow> bit B0 m \<or> (\<exists>p<n. bit (g p) m)"
proof (induction n)
  case 0
  then show ?case by simp
next
  case (Suc n)
  show ?case
    by (simp only: fold_snoc bit_or_iff Suc.IH) (auto simp add: less_Suc_eq)
qed

lemma c_f8: "(0xF :: nibble) = mask 4"
  by (simp add: mask_eq_exp_minus_1)

lemma and_f_lt16: "(v :: nibble) AND 0xF < 16"
proof -
  have "(0xF :: nibble) = mask 4" by (simp add: mask_eq_exp_minus_1)
  moreover have "v AND mask 4 < 2 ^ 4" by (rule and_mask_less') simp
  ultimately show ?thesis by simp
qed

lemma lt16_and_f: "(v :: nibble) < 16 \<Longrightarrow> v AND 0xF = v"
proof -
  assume "v < 16"
  then have "v < 2 ^ 4" by simp
  then have "v AND mask 4 = v" by (rule less_mask_eq)
  moreover have "(0xF :: nibble) = mask 4" by (simp add: mask_eq_exp_minus_1)
  ultimately show ?thesis by simp
qed

lemma bit_spec_block:
  "bit (spec_block f) m \<longleftrightarrow>
     (\<exists>p<16. 4 * (15 - p) \<le> m \<and> m < 4 * (15 - p) + 4 \<and> bit (f p) (m - 4 * (15 - p)))"
proof -
  have "bit (push_bit (4 * (15 - p)) (ucast (f p AND 0xF) :: bloque)) m
       \<longleftrightarrow> 4 * (15 - p) \<le> m \<and> m < 4 * (15 - p) + 4 \<and> bit (f p) (m - 4 * (15 - p))"
    if "p < 16" for p
    unfolding c_f8 using that by (auto simp add: bit_simps)
  then show ?thesis
    unfolding spec_block_def by (simp only: bit_fold_or) auto
qed

lemma obt_spec_block:
  assumes "p < 16"
  shows "obtNibble (spec_block f) (of_nat p) = f p AND 0xF"
proof (rule bit_word_eqI)
  fix k
  have e: "bit (f p AND 0xF) k \<longleftrightarrow> k < 4 \<and> bit (f p) k"
    unfolding c_f8 by (auto simp add: bit_simps)
  show "bit (obtNibble (spec_block f) (of_nat p)) k = bit (f p AND 0xF) k"
  proof (cases "k < 4")
    case True
    have "(\<exists>q<16. 4 * (15 - q) \<le> 4 * (15 - p) + k \<and> 4 * (15 - p) + k < 4 * (15 - q) + 4
             \<and> bit (f q) (4 * (15 - p) + k - 4 * (15 - q))) \<longleftrightarrow> bit (f p) k"
    proof
      assume "\<exists>q<16. 4 * (15 - q) \<le> 4 * (15 - p) + k \<and> 4 * (15 - p) + k < 4 * (15 - q) + 4
             \<and> bit (f q) (4 * (15 - p) + k - 4 * (15 - q))"
      then obtain q where q: "q < 16" "4 * (15 - q) \<le> 4 * (15 - p) + k"
        "4 * (15 - p) + k < 4 * (15 - q) + 4" "bit (f q) (4 * (15 - p) + k - 4 * (15 - q))"
        by blast
      from q(1-3) True assms have "q = p" by arith
      with q(4) show "bit (f p) k" by simp
    next
      assume "bit (f p) k"
      then show "\<exists>q<16. 4 * (15 - q) \<le> 4 * (15 - p) + k \<and> 4 * (15 - p) + k < 4 * (15 - q) + 4
             \<and> bit (f q) (4 * (15 - p) + k - 4 * (15 - q))"
        using assms True by (intro exI [of _ p]) simp
    qed
    then show ?thesis
      using True assms by (simp add: bit_obtNibble pos_of_nat bit_spec_block e)
  next
    case False
    then show ?thesis
      using assms by (simp add: bit_obtNibble pos_of_nat e)
  qed
qed

lemma spec_block_eqI:
  assumes "\<And>p. p < 16 \<Longrightarrow> obtNibble B (of_nat p) = f p" and "\<And>p. p < 16 \<Longrightarrow> f p < 16"
  shows "B = spec_block f"
  by (rule block_ext) (simp add: obt_spec_block assms lt16_and_f)

section \<open>The round functions\<close>

lemma subCell_from_nibble:
  "p < 16 \<Longrightarrow> obtNibble (subCell_from SC S) (of_nat p) = obtNibble Sb0 (obtNibble S (of_nat p))"
  unfolding subCell_from_def Let_def nxn_def
  by (subst fold_asg_nibble) (simp_all add: obtNibble_lt16)

lemma subCell_from_indep: "subCell_from SC S = subCell S"
  unfolding subCell_def by (rule block_ext) (simp add: subCell_from_nibble)

lemma subCell_spec: "subCell S = spec_SubCell S"
  unfolding spec_SubCell_def subCell_def
  by (rule spec_block_eqI)
     (simp_all add: subCell_from_nibble spec_nibble_obt obtNibble_lt16 unat_lt16)

lemma shuffleCell_from_nibble:
  "p < 16 \<Longrightarrow> obtNibble (shuffleCell_from SH S inv_c) (of_nat p)
      = obtNibble S (obtNibble (if inv_c = 0 then shuffleP else shufflePInv) (of_nat p))"
  unfolding shuffleCell_from_def Let_def nxn_def
  by (subst fold_asg_nibble) (simp_all add: obtNibble_lt16)

lemma shuffleCell_from_indep: "shuffleCell_from SH S inv_c = shuffleCell S inv_c"
  unfolding shuffleCell_def by (rule block_ext) (simp add: shuffleCell_from_nibble)

lemma shuffleCell_spec: "shuffleCell S 0 = spec_ShuffleCell S"
  unfolding spec_ShuffleCell_def shuffleCell_def
  by (rule spec_block_eqI)
     (simp_all add: shuffleCell_from_nibble spec_nibble_obt obtNibble_lt16 unat_lt16)

lemma upt_4: "[0..<4] = [0, 1, 2, 3 :: nat]"
  by (simp add: upt_rec)

lemma upt_16: "[0..<16] = [0, 1, 2, 3, 4, 5, 6, 7, 8, 9, 10, 11, 12, 13, 14, 15 :: nat]"
  by (simp add: upt_rec)

lemma xor_lt16: "a < 16 \<Longrightarrow> b < 16 \<Longrightarrow> a XOR b < 16" for a b :: nibble
proof -
  assume "a < 16" "b < 16"
  then have "a AND 0xF = a" "b AND 0xF = b" by (simp_all add: lt16_and_f)
  then have "a XOR b = (a XOR b) AND 0xF"
    by (metis bit.conj_xor_distrib2)
  then show ?thesis
    by (metis and_f_lt16)
qed

lemma narrow_nib: "(ucast (ucast (x :: nibble) :: bloque) :: nibble) = x"
  by (rule bit_word_eqI) (simp add: bit_simps)

lemma mix_val_lt16: "mix_val S p < 16"
  by (simp add: mix_val_def Let_def xor_lt16 obtNibble_lt16)

lemma mixColumn_from_fold:
  "mixColumn_from MC S = fold (\<lambda>p B. asgNibble B (of_nat p) (mix_val S p)) [0..<16] MC"
  unfolding mixColumn_from_def n_c_def nxn_def
  by (simp add: upt_4 upt_16 mix_val_def Let_def unsigned_xor_eq narrow_nib xor.assoc)

lemma mixColumn_from_nibble:
  "p < 16 \<Longrightarrow> obtNibble (mixColumn_from MC S) (of_nat p) = mix_val S p"
  unfolding mixColumn_from_fold
  by (subst fold_asg_nibble) (simp_all add: mix_val_lt16)

lemma mixColumn_from_indep: "mixColumn_from MC S = mixColumn S"
  unfolding mixColumn_def by (rule block_ext) (simp add: mixColumn_from_nibble)

lemma mixColumn_spec: "mixColumn S = spec_MixColumn S"
  unfolding spec_MixColumn_def mixColumn_def
proof (rule spec_block_eqI)
  fix p :: nat assume p: "p < 16"
  then have c: "4 * (p div 4) < 16" "4 * (p div 4) + 1 < 16" "4 * (p div 4) + 2 < 16" "4 * (p div 4) + 3 < 16"
    by arith+
  have m: "(let c = 4 * (p div 4);
          parity = spec_nibble S c XOR spec_nibble S (c + 1) XOR spec_nibble S (c + 2) XOR spec_nibble S (c + 3)
      in parity XOR spec_nibble S p) = mix_val S p"
    using p c by (simp add: Let_def spec_nibble_obt mix_val_def ac_simps del: of_nat_add of_nat_mult)
  show "obtNibble (mixColumn_from 0 S) (of_nat p) =
        (let c = 4 * (p div 4);
          parity = spec_nibble S c XOR spec_nibble S (c + 1) XOR spec_nibble S (c + 2) XOR spec_nibble S (c + 3)
      in parity XOR spec_nibble S p)"
    using p by (simp only: m mixColumn_from_nibble)
  show "(let c = 4 * (p div 4);
          parity = spec_nibble S c XOR spec_nibble S (c + 1) XOR spec_nibble S (c + 2) XOR spec_nibble S (c + 3)
      in parity XOR spec_nibble S p) < 16"
    by (simp only: m mix_val_lt16)
qed

section \<open>The key schedule and the cipher\<close>

lemma fold_update_same:
  "i < length RK \<Longrightarrow>
     fold (\<lambda>j RK. RK[i := h j (RK ! i)]) js RK = RK[i := fold h js (RK ! i)]"
proof (induction js arbitrary: RK)
  case Nil
  then show ?case by simp
next
  case (Cons j js)
  have "fold (\<lambda>j RK. RK[i := h j (RK ! i)]) (j # js) RK
      = fold (\<lambda>j RK. RK[i := h j (RK ! i)]) js (RK[i := h j (RK ! i)])"
    by simp
  also have "\<dots> = (RK[i := h j (RK ! i)])[i := fold h js ((RK[i := h j (RK ! i)]) ! i)]"
    using Cons.prems by (intro Cons.IH) simp
  also have "\<dots> = RK[i := fold h (j # js) (RK ! i)]"
    using Cons.prems by simp
  finally show ?case .
qed

lemma fold_update_rows:
  assumes F: "\<And>i RK. i < length RK \<Longrightarrow> F i RK = RK[i := H i (RK ! i)]"
  shows "m \<le> length RK \<Longrightarrow>
     length (fold F [0..<m] RK) = length RK
     \<and> (\<forall>k < length RK. fold F [0..<m] RK ! k = (if k < m then H k (RK ! k) else RK ! k))"
proof (induction m)
  case 0
  then show ?case by simp
next
  case (Suc m)
  then have IH: "length (fold F [0..<m] RK) = length RK"
    "\<And>k. k < length RK \<Longrightarrow> fold F [0..<m] RK ! k = (if k < m then H k (RK ! k) else RK ! k)"
    by simp_all
  have m: "m < length (fold F [0..<m] RK)"
    using Suc.prems IH(1) by simp
  show ?case
    using Suc.prems
    by (simp only: fold_snoc F [OF m]) (auto simp add: IH nth_list_update less_Suc_eq)
qed

lemma beta_bit:
  "(ucast (drop_bit n (w :: dbyte) AND 0x1) :: nibble) = (if bit w n then 1 else 0)"
proof (rule bit_word_eqI)
  fix k
  show "bit (ucast (drop_bit n w AND 0x1) :: nibble) k = bit (if bit w n then 1 else 0 :: nibble) k"
    by (cases "k = 0") (auto simp add: bit_simps bit_1_iff dest: bit_imp_le_length)
qed

lemma rk_val_lt16: "rk_val Ki i j < 16"
  unfolding rk_val_def by (rule xor_lt16) (simp_all add: obtNibble_lt16 beta_bit)

lemma keyGen_rows:
  assumes "length RK0 = 16" and "i < 15"
  shows "fst (keyGen RK0 Ki) ! i
           = fold (\<lambda>j B. asgNibble B (of_nat j) (rk_val Ki i j)) [0..<16] (RK0 ! i)"
proof -
  let ?H = "\<lambda>i B. fold (\<lambda>j B. asgNibble B (of_nat j) (rk_val Ki i j)) [0..<16] B"
  let ?F = "\<lambda>i RK. fold (\<lambda>j RK. RK[i := asgNibble (RK ! i) (of_nat j) (rk_val Ki i j)]) [0..<16] RK"
  have inner: "?F i RK = RK[i := ?H i (RK ! i)]" if "i < length RK" for i and RK :: "bloque list"
    using that by (rule fold_update_same [where h = "\<lambda>j B. asgNibble B (of_nat j) (rk_val Ki i j)"])
  have "fst (keyGen RK0 Ki) = fold ?F [0..<15] RK0"
    by (simp add: keyGen_def Let_def rk_val_def nxn_def r_c_def)
  then show ?thesis
    using fold_update_rows [of ?F ?H 15 RK0, OF inner] assms by simp
qed

lemma keyGen_spec:
  assumes "length RK0 = 16" and "i < 15"
  shows "fst (keyGen RK0 (K0, K1)) ! i = spec_RK K0 K1 i"
  unfolding spec_RK_def
proof (rule spec_block_eqI)
  fix j :: nat assume j: "j < 16"
  have par: "(i AND 0x1 = 0) = even i"
    by (simp add: and_one_eq mod_2_eq_odd)
  have e: "rk_val (K0, K1) i j
        = spec_nibble (if even i then K0 else K1) j XOR (if bit (beta_c ! i) (15 - j) then 1 else 0)"
    using j unfolding rk_val_def beta_bit par by (simp add: spec_nibble_obt nxn_def)
  show "obtNibble (fst (keyGen RK0 (K0, K1)) ! i) (of_nat j)
      = spec_nibble (if even i then K0 else K1) j XOR (if bit (beta_c ! i) (15 - j) then 1 else 0)"
    using j by (simp only: keyGen_rows [OF assms] e [symmetric])
               (subst fold_asg_nibble, simp_all add: rk_val_lt16)
  show "spec_nibble (if even i then K0 else K1) j XOR (if bit (beta_c ! i) (15 - j) then 1 else 0) < 16"
    by (simp only: e [symmetric] rk_val_lt16)
qed

lemma keyGen_WK: "snd (keyGen RK0 (K0, K1)) = K0 XOR K1"
  by (simp add: keyGen_def Let_def)

lemma midori_from_spec:
  assumes "length RK0 = 16"
  shows "midori_from RK0 S (K0, K1) 0 = spec_midori S K0 K1"
proof -
  have "fold (\<lambda>i S. keyAdd (mixColumn (shuffleCell (subCell S) 0)) (fst (keyGen RK0 (K0, K1)) ! i)) [0..<15] X
      = fold (\<lambda>i S. spec_MixColumn (spec_ShuffleCell (spec_SubCell S)) XOR spec_RK K0 K1 i) [0..<15] X" for X
    by (rule List.fold_cong)
       (simp_all add: keyGen_spec [OF assms] keyAdd_def mixColumn_spec shuffleCell_spec subCell_spec)
  then show ?thesis
    by (simp add: midori_from_def spec_midori_def split_beta Let_def keyGen_WK r_c_def
          keyAdd_def subCell_spec)
qed

lemma midori_from_indep:
  assumes "length RK0 = 16"
  shows "midori_from RK0 S Ki inv_c = midori S Ki inv_c"
proof -
  obtain K0 K1 where Ki: "Ki = (K0, K1)" by (cases Ki)
  have z: "length (replicate r_c (0 :: bloque)) = 16" by (simp add: r_c_def)
  have rows: "fst (keyGen RK0 Ki) ! i = fst (keyGen (replicate r_c 0) Ki) ! i" if "i < 15" for i
    using that by (simp only: Ki keyGen_spec [OF assms] keyGen_spec [OF z])
  have "fold (\<lambda>i S. keyAdd (g S) (fst (keyGen RK0 Ki) ! i)) [0..<15] X
      = fold (\<lambda>i S. keyAdd (g S) (fst (keyGen (replicate r_c 0) Ki) ! i)) [0..<15] X" for g X
    by (rule List.fold_cong) (simp_all add: rows)
  then show ?thesis
    by (simp add: midori_def midori_from_def split_beta Let_def Ki keyGen_WK r_c_def)
qed

lemma keyGen_length:
  assumes "length RK0 = 16"
  shows "length (fst (keyGen RK0 Ki)) = 16"
proof -
  let ?H = "\<lambda>i B. fold (\<lambda>j B. asgNibble B (of_nat j) (rk_val Ki i j)) [0..<16] B"
  let ?F = "\<lambda>i RK. fold (\<lambda>j RK. RK[i := asgNibble (RK ! i) (of_nat j) (rk_val Ki i j)]) [0..<16] RK"
  have inner: "?F i RK = RK[i := ?H i (RK ! i)]" if "i < length RK" for i and RK :: "bloque list"
    using that by (rule fold_update_same [where h = "\<lambda>j B. asgNibble B (of_nat j) (rk_val Ki i j)"])
  have "fst (keyGen RK0 Ki) = fold ?F [0..<15] RK0"
    by (simp add: keyGen_def Let_def rk_val_def nxn_def r_c_def)
  then show ?thesis
    using fold_update_rows [of ?F ?H 15 RK0, OF inner] assms by simp
qed

lemma keyGen_round_keys:
  "take 15 (fst (keyGen (replicate r_c 0) (K0, K1))) = map (spec_RK K0 K1) [0..<15]"
proof (rule nth_equalityI)
  have l: "length (fst (keyGen (replicate r_c 0) (K0, K1))) = 16"
    by (rule keyGen_length) (simp add: r_c_def)
  then show "length (take 15 (fst (keyGen (replicate r_c 0) (K0, K1)))) = length (map (spec_RK K0 K1) [0..<15])"
    by simp
  fix i assume "i < length (take 15 (fst (keyGen (replicate r_c 0) (K0, K1))))"
  then have "i < 15" by simp
  then show "take 15 (fst (keyGen (replicate r_c 0) (K0, K1))) ! i = map (spec_RK K0 K1) [0..<15] ! i"
    by (simp add: keyGen_spec r_c_def)
qed

text \<open>
  C3. \<open>midori(S, (K0, K1), 0)\<close> is the cipher as specified: \<open>S\<close> is XORed with the
  whitening key \<open>K0 XOR K1\<close>; 15 rounds follow, each SubCell, forward ShuffleCell,
  MixColumn and XOR with the round key \<open>RK[i]\<close>; then a final SubCell and a final XOR
  with the whitening key. The whitening key and the 15 round keys are those \<open>keyGen\<close>
  computes: nibble \<open>j\<close> of \<open>RK[i]\<close> is nibble \<open>j\<close> of \<open>K0\<close> (even \<open>i\<close>) or \<open>K1\<close>
  (odd \<open>i\<close>) with bit \<open>15 - j\<close> of \<open>beta[i]\<close> XORed into its low bit.
\<close>

theorem midori_refines_spec:
  "midori S (K0, K1) 0 = spec_midori S K0 K1
   \<and> snd (keyGen (replicate r_c 0) (K0, K1)) = K0 XOR K1
   \<and> take 15 (fst (keyGen (replicate r_c 0) (K0, K1))) = map (spec_RK K0 K1) [0..<15]"
  unfolding midori_def
  by (intro conjI keyGen_WK keyGen_round_keys midori_from_spec) (simp add: r_c_def)

section \<open>The counter of the drivers\<close>

lemma COFB_body_exp:
  "st_exp (COFB_body K beta st rd) = switch_advance (read_advance (st_exp st) (snd rd))"
  by (simp add: COFB_body_def Let_def split_beta)

lemma dCOFB_body_exp:
  "st_exp (dCOFB_body K beta st rd) = switch_advance (read_advance (st_exp st) (snd rd))"
  by (simp add: dCOFB_body_def Let_def split_beta)

lemma exp_steps:
  "switch_advance (read_advance 1 False) = 1"
  "switch_advance (read_advance 1 True) = 3"
  "switch_advance (read_advance 3 False) = 3"
  "switch_advance (read_advance 3 True) = 5"
  by (simp_all add: switch_advance_def read_advance_def)

lemma COFB_loop_done: "\<not> st_exp st < 4 \<Longrightarrow> COFB_loop K beta st rds = Some st"
  by (cases rds) simp_all

lemma dCOFB_loop_done: "\<not> st_exp st < 4 \<Longrightarrow> dCOFB_loop K beta st rds = Some st"
  by (cases rds) simp_all






section \<open>The module variables at call entry\<close>

lemma goper_x3x3:
  "e = 1 \<or> e = 2 \<or> e = 3 \<Longrightarrow>
     goper (fs\<lparr>mx2x3x3 := b\<rparr>) e alf = (fst (goper fs e alf), (snd (goper fs e alf))\<lparr>mx2x3x3 := b\<rparr>)"
  "goper (fs\<lparr>mx2x3x3 := b\<rparr>) 4 alf = goper fs 4 alf"
  by (auto simp add: goper_def Let_def)

lemma goper_x3:
  "goper (fs\<lparr>mx2x3 := a\<rparr>) 1 alf = (fst (goper fs 1 alf), (snd (goper fs 1 alf))\<lparr>mx2x3 := a\<rparr>)"
  "goper (fs\<lparr>mx2x3 := a\<rparr>) 2 alf = goper fs 2 alf"
  "goper (fs\<lparr>mx2x3 := a\<rparr>) 3 alf = goper fs 3 alf"
  by (auto simp add: goper_def Let_def)

lemma set_exp [simp]: "st_exp (set_x3x3 b st) = st_exp st" "st_exp (set_x3 a st) = st_exp st"
  by (simp_all add: set_x3x3_def set_x3_def)

lemma COFB_body_x3x3:
  "st_exp st = 3 \<Longrightarrow> COFB_body K beta (set_x3x3 b st) (B, False) = set_x3x3 b (COFB_body K beta st (B, False))"
  "st_exp st = 3 \<Longrightarrow> COFB_body K beta (set_x3x3 b st) (B, True) = COFB_body K beta st (B, True)"
  "st_exp st = 1 \<Longrightarrow> COFB_body K beta (set_x3x3 b st) (B, f) = set_x3x3 b (COFB_body K beta st (B, f))"
  by (simp_all add: COFB_body_def set_x3x3_def mask_c_def read_advance_def goper_x3x3 Let_def split_beta)

lemma COFB_body_x3:
  "st_exp st = 1 \<Longrightarrow> COFB_body K beta (set_x3 a st) (B, False) = set_x3 a (COFB_body K beta st (B, False))"
  "st_exp st = 1 \<Longrightarrow> COFB_body K beta (set_x3 a st) (B, True) = COFB_body K beta st (B, True)"
  by (simp_all add: COFB_body_def set_x3_def mask_c_def read_advance_def goper_x3 Let_def split_beta)

lemma COFB_loop_x3x3_3:
  "st_exp st = 3 \<Longrightarrow> COFB_loop K beta (set_x3x3 b st) rds = COFB_loop K beta st rds"
proof (induction rds arbitrary: st)
  case Nil
  then show ?case by simp
next
  case (Cons rd rds)
  obtain B f where rd: "rd = (B, f)" by (cases rd)
  show ?case
  proof (cases f)
    case True
    then show ?thesis using Cons.prems rd by (simp add: COFB_body_x3x3)
  next
    case False
    then have "st_exp (COFB_body K beta st rd) = 3"
      using Cons.prems rd by (simp add: COFB_body_exp exp_steps)
    from Cons.IH [OF this] show ?thesis using Cons.prems rd False by (simp add: COFB_body_x3x3)
  qed
qed

lemma COFB_loop_x3x3_1:
  "st_exp st = 1 \<Longrightarrow> COFB_loop K beta (set_x3x3 b st) rds = COFB_loop K beta st rds"
proof (induction rds arbitrary: st)
  case Nil
  then show ?case by simp
next
  case (Cons rd rds)
  obtain B f where rd: "rd = (B, f)" by (cases rd)
  show ?case
  proof (cases f)
    case True
    then have "st_exp (COFB_body K beta st rd) = 3"
      using Cons.prems rd by (simp add: COFB_body_exp exp_steps)
    from COFB_loop_x3x3_3 [OF this] show ?thesis using Cons.prems rd True by (simp add: COFB_body_x3x3)
  next
    case False
    then have "st_exp (COFB_body K beta st rd) = 1"
      using Cons.prems rd by (simp add: COFB_body_exp exp_steps)
    from Cons.IH [OF this] show ?thesis using Cons.prems rd False by (simp add: COFB_body_x3x3)
  qed
qed

lemma COFB_loop_x3_1:
  "st_exp st = 1 \<Longrightarrow> COFB_loop K beta (set_x3 a st) rds = COFB_loop K beta st rds"
proof (induction rds arbitrary: st)
  case Nil
  then show ?case by simp
next
  case (Cons rd rds)
  obtain B f where rd: "rd = (B, f)" by (cases rd)
  show ?case
  proof (cases f)
    case True
    then show ?thesis using Cons.prems rd by (simp add: COFB_body_x3)
  next
    case False
    then have "st_exp (COFB_body K beta st rd) = 1"
      using Cons.prems rd by (simp add: COFB_body_exp exp_steps)
    from Cons.IH [OF this] show ?thesis using Cons.prems rd False by (simp add: COFB_body_x3)
  qed
qed

lemma dCOFB_body_x3x3:
  "st_exp st = 3 \<Longrightarrow> dCOFB_body K beta (set_x3x3 b st) (B, False) = set_x3x3 b (dCOFB_body K beta st (B, False))"
  "st_exp st = 3 \<Longrightarrow> dCOFB_body K beta (set_x3x3 b st) (B, True) = dCOFB_body K beta st (B, True)"
  "st_exp st = 1 \<Longrightarrow> dCOFB_body K beta (set_x3x3 b st) (B, f) = set_x3x3 b (dCOFB_body K beta st (B, f))"
  by (simp_all add: dCOFB_body_def set_x3x3_def mask_c_def read_advance_def goper_x3x3 Let_def split_beta)

lemma dCOFB_body_x3:
  "st_exp st = 1 \<Longrightarrow> dCOFB_body K beta (set_x3 a st) (B, False) = set_x3 a (dCOFB_body K beta st (B, False))"
  "st_exp st = 1 \<Longrightarrow> dCOFB_body K beta (set_x3 a st) (B, True) = dCOFB_body K beta st (B, True)"
  by (simp_all add: dCOFB_body_def set_x3_def mask_c_def read_advance_def goper_x3 Let_def split_beta)

lemma dCOFB_loop_x3x3_3:
  "st_exp st = 3 \<Longrightarrow> dCOFB_loop K beta (set_x3x3 b st) rds = dCOFB_loop K beta st rds"
proof (induction rds arbitrary: st)
  case Nil
  then show ?case by simp
next
  case (Cons rd rds)
  obtain B f where rd: "rd = (B, f)" by (cases rd)
  show ?case
  proof (cases f)
    case True
    then show ?thesis using Cons.prems rd by (simp add: dCOFB_body_x3x3)
  next
    case False
    then have "st_exp (dCOFB_body K beta st rd) = 3"
      using Cons.prems rd by (simp add: dCOFB_body_exp exp_steps)
    from Cons.IH [OF this] show ?thesis using Cons.prems rd False by (simp add: dCOFB_body_x3x3)
  qed
qed

lemma dCOFB_loop_x3x3_1:
  "st_exp st = 1 \<Longrightarrow> dCOFB_loop K beta (set_x3x3 b st) rds = dCOFB_loop K beta st rds"
proof (induction rds arbitrary: st)
  case Nil
  then show ?case by simp
next
  case (Cons rd rds)
  obtain B f where rd: "rd = (B, f)" by (cases rd)
  show ?case
  proof (cases f)
    case True
    then have "st_exp (dCOFB_body K beta st rd) = 3"
      using Cons.prems rd by (simp add: dCOFB_body_exp exp_steps)
    from dCOFB_loop_x3x3_3 [OF this] show ?thesis using Cons.prems rd True by (simp add: dCOFB_body_x3x3)
  next
    case False
    then have "st_exp (dCOFB_body K beta st rd) = 1"
      using Cons.prems rd by (simp add: dCOFB_body_exp exp_steps)
    from Cons.IH [OF this] show ?thesis using Cons.prems rd False by (simp add: dCOFB_body_x3x3)
  qed
qed

lemma dCOFB_loop_x3_1:
  "st_exp st = 1 \<Longrightarrow> dCOFB_loop K beta (set_x3 a st) rds = dCOFB_loop K beta st rds"
proof (induction rds arbitrary: st)
  case Nil
  then show ?case by simp
next
  case (Cons rd rds)
  obtain B f where rd: "rd = (B, f)" by (cases rd)
  show ?case
  proof (cases f)
    case True
    then show ?thesis using Cons.prems rd by (simp add: dCOFB_body_x3)
  next
    case False
    then have "st_exp (dCOFB_body K beta st rd) = 1"
      using Cons.prems rd by (simp add: dCOFB_body_exp exp_steps)
    from Cons.IH [OF this] show ?thesis using Cons.prems rd False by (simp add: dCOFB_body_x3)
  qed
qed

lemma COFB_init_any:
  "fst (COFB_init fs K N) = fst (COFB_init fs' K N)"
  "snd (COFB_init fs K N) = set_x3 (mx2x3 fs) (set_x3x3 (mx2x3x3 fs) (snd (COFB_init fs' K N)))"
  "st_exp (snd (COFB_init fs K N)) = 1"
  by (simp_all add: COFB_init_def Let_def set_x3_def set_x3x3_def)

lemma COFB_entry_indep: "COFB fs K N rds = COFB fs' K N rds"
proof -
  have "COFB_loop K (fst (COFB_init fs K N)) (snd (COFB_init fs K N)) rds
      = COFB_loop K (fst (COFB_init fs' K N)) (snd (COFB_init fs' K N)) rds"
    by (simp add: COFB_init_any(1,2) [of fs K N fs'] COFB_loop_x3_1 COFB_loop_x3x3_1 COFB_init_any(3))
  then show ?thesis
    by (simp add: COFB_def split_beta)
qed

lemma dCOFB_entry_indep: "dCOFB fs K N T rds = dCOFB fs' K N T rds"
proof -
  have "dCOFB_loop K (fst (COFB_init fs K N)) (snd (COFB_init fs K N)) rds
      = dCOFB_loop K (fst (COFB_init fs' K N)) (snd (COFB_init fs' K N)) rds"
    by (simp add: COFB_init_any(1,2) [of fs K N fs'] dCOFB_loop_x3_1 dCOFB_loop_x3x3_1 COFB_init_any(3))
  then show ?thesis
    by (simp add: dCOFB_def split_beta)
qed

section \<open>Encryption followed by decryption\<close>

lemma bodies_agree_1:
  "st_exp st = 1 \<Longrightarrow> dCOFB_body K beta st rd = COFB_body K beta st rd"
  by (cases "snd rd") (simp_all add: dCOFB_body_def COFB_body_def read_advance_def Let_def split_beta)

lemma xor_fixup: "Y XOR ((Y XOR B) XOR G) = B XOR G" for Y :: bloque
  by (rule bit_word_eqI) (auto simp add: bit_simps)

lemma mask_c_goper:
  "mask_c fs beta B finB = (ucast (fst (goper fs finB (ucast beta))), snd (goper fs finB (ucast beta)))"
  by (simp add: mask_c_def split_beta)

lemma bodies_payload_dec:
  assumes "st_exp st = 3"
  shows "dCOFB_body K beta (st\<lparr>st_out := ou\<rparr>) (st_Y st XOR B, f)
           = (COFB_body K beta st (B, f))\<lparr>st_out := ou @ [B]\<rparr>"
  using assms
  by (cases f)
     (simp_all add: dCOFB_body_def COFB_body_def read_advance_def Let_def split_beta
        mask_c_goper xor_fixup)

lemma bodies_payload_out:
  assumes "st_exp st = 3"
  shows "st_out (COFB_body K beta st (B, f)) = st_out st @ [st_Y st XOR B]"
  using assms
  by (cases f) (simp_all add: COFB_body_def read_advance_def Let_def split_beta)

lemma header_phase:
  assumes "st_exp st = 1"
  shows "\<exists>st3. st_exp st3 = 3 \<and> st_out st3 = st_out st
           \<and> (\<forall>rest. COFB_loop K beta st (map (\<lambda>b. (b, False)) H @ (A, True) # rest)
                       = COFB_loop K beta st3 rest)
           \<and> (\<forall>rest. dCOFB_loop K beta st (map (\<lambda>b. (b, False)) H @ (A, True) # rest)
                       = dCOFB_loop K beta st3 rest)"
  using assms
proof (induction H arbitrary: st)
  case Nil
  let ?st3 = "COFB_body K beta st (A, True)"
  have "st_exp ?st3 = 3" using Nil by (simp add: COFB_body_exp exp_steps)
  moreover have "st_out ?st3 = st_out st"
    using Nil by (simp add: COFB_body_def read_advance_def Let_def split_beta)
  ultimately show ?case
    using Nil by (intro exI [of _ ?st3]) (simp add: bodies_agree_1)
next
  case (Cons b H)
  let ?st1 = "COFB_body K beta st (b, False)"
  have e: "st_exp ?st1 = 1" using Cons.prems by (simp add: COFB_body_exp exp_steps)
  have o: "st_out ?st1 = st_out st"
    using Cons.prems by (simp add: COFB_body_def read_advance_def Let_def split_beta)
  from Cons.IH [OF e] obtain st3 where
    "st_exp st3 = 3" "st_out st3 = st_out ?st1"
    "\<forall>rest. COFB_loop K beta ?st1 (map (\<lambda>b. (b, False)) H @ (A, True) # rest) = COFB_loop K beta st3 rest"
    "\<forall>rest. dCOFB_loop K beta ?st1 (map (\<lambda>b. (b, False)) H @ (A, True) # rest) = dCOFB_loop K beta st3 rest"
    by blast
  then show ?case
    using Cons.prems o by (intro exI [of _ st3]) (simp add: bodies_agree_1)
qed

lemma payload_phase:
  assumes "st_exp st = 3"
  shows "\<exists>cP cn st5. length cP = length P
           \<and> COFB_loop K beta st (map (\<lambda>b. (b, False)) P @ (Bn, True) # extra) = Some st5
           \<and> st_out st5 = st_out st @ cP @ [cn]
           \<and> (\<forall>ou extra'. dCOFB_loop K beta (st\<lparr>st_out := ou\<rparr>)
                               (map (\<lambda>c. (c, False)) cP @ (cn, True) # extra')
                             = Some (st5\<lparr>st_out := ou @ P @ [Bn]\<rparr>))"
  using assms
proof (induction P arbitrary: st)
  case Nil
  let ?st5 = "COFB_body K beta st (Bn, True)"
  have e: "st_exp ?st5 = 5" using Nil by (simp add: COFB_body_exp exp_steps)
  have "COFB_loop K beta st ((Bn, True) # extra) = Some ?st5"
    using Nil e by (simp add: COFB_loop_done)
  moreover have "\<forall>ou extra'. dCOFB_loop K beta (st\<lparr>st_out := ou\<rparr>) ((st_Y st XOR Bn, True) # extra')
                             = Some (?st5\<lparr>st_out := ou @ [Bn]\<rparr>)"
    using Nil e by (simp add: bodies_payload_dec dCOFB_loop_done)
  ultimately show ?case
    using Nil by (intro exI [of _ "[]"] exI [of _ "st_Y st XOR Bn"] exI [of _ ?st5])
                 (simp add: bodies_payload_out)
next
  case (Cons b P)
  let ?st1 = "COFB_body K beta st (b, False)"
  have e: "st_exp ?st1 = 3" using Cons.prems by (simp add: COFB_body_exp exp_steps)
  from Cons.IH [OF e] obtain cP cn st5 where h:
    "length cP = length P"
    "COFB_loop K beta ?st1 (map (\<lambda>b. (b, False)) P @ (Bn, True) # extra) = Some st5"
    "st_out st5 = st_out ?st1 @ cP @ [cn]"
    "\<forall>ou extra'. dCOFB_loop K beta (?st1\<lparr>st_out := ou\<rparr>)
                               (map (\<lambda>c. (c, False)) cP @ (cn, True) # extra')
                             = Some (st5\<lparr>st_out := ou @ P @ [Bn]\<rparr>)"
    by blast
  have enc: "COFB_loop K beta st (map (\<lambda>b. (b, False)) (b # P) @ (Bn, True) # extra) = Some st5"
    using Cons.prems h(2) by simp
  have out: "st_out st5 = st_out st @ ((st_Y st XOR b) # cP) @ [cn]"
    using h(3) Cons.prems by (simp add: bodies_payload_out)
  have dec: "dCOFB_loop K beta (st\<lparr>st_out := ou\<rparr>)
               (map (\<lambda>c. (c, False)) ((st_Y st XOR b) # cP) @ (cn, True) # extra')
             = Some (st5\<lparr>st_out := ou @ (b # P) @ [Bn]\<rparr>)" for ou extra'
  proof -
    have "dCOFB_loop K beta (st\<lparr>st_out := ou\<rparr>)
               (map (\<lambda>c. (c, False)) ((st_Y st XOR b) # cP) @ (cn, True) # extra')
          = dCOFB_loop K beta (?st1\<lparr>st_out := ou @ [b]\<rparr>)
               (map (\<lambda>c. (c, False)) cP @ (cn, True) # extra')"
      using Cons.prems by (simp add: bodies_payload_dec)
    also have "\<dots> = Some (st5\<lparr>st_out := (ou @ [b]) @ P @ [Bn]\<rparr>)"
      using h(4) by blast
    finally show ?thesis by simp
  qed
  have len: "length ((st_Y st XOR b) # cP) = length (b # P)"
    using h(1) by simp
  from len enc out dec show ?case
    by blast
qed

lemma COFB_init_out: "st_out (snd (COFB_init fs K N)) = []"
  by (simp add: COFB_init_def Let_def)

lemma dCOFB_via_COFB_state:
  "dCOFB fs K N T rds = 
     (case dCOFB_loop K (fst (COFB_init fs K N)) (snd (COFB_init fs K N)) rds of
        None \<Rightarrow> None | Some st \<Rightarrow> Some (st_out st, st_Y st, st_field st))"
  by (simp add: dCOFB_def split_beta Let_def split: option.split)

lemma COFB_via_state:
  "COFB fs K N rds = 
     (case COFB_loop K (fst (COFB_init fs K N)) (snd (COFB_init fs K N)) rds of
        None \<Rightarrow> None | Some st \<Rightarrow> Some (st_out st, st_Y st, st_field st))"
  by (simp add: COFB_def split_beta Let_def split: option.split)

lemma round_trip_same_entry:
  "\<exists>cP cn T fs1.
      COFB fs K N (map (\<lambda>b. (b, False)) H @ (A, True) # map (\<lambda>b. (b, False)) P @ (Bn, True) # extra)
        = Some (cP @ [cn], T, fs1)
      \<and> length cP = length P
      \<and> dCOFB fs K N T0 (map (\<lambda>b. (b, False)) H @ (A, True) # map (\<lambda>c. (c, False)) cP @ (cn, True) # extra')
        = Some (P @ [Bn], T, fs1)"
proof -
  let ?beta = "fst (COFB_init fs K N)" and ?st = "snd (COFB_init fs K N)"
  have e1: "st_exp ?st = 1" by (rule COFB_init_any(3))
  from header_phase [OF e1, of K ?beta H A] obtain st3 where h:
    "st_exp st3 = 3" "st_out st3 = st_out ?st"
    "\<And>rest. COFB_loop K ?beta ?st (map (\<lambda>b. (b, False)) H @ (A, True) # rest) = COFB_loop K ?beta st3 rest"
    "\<And>rest. dCOFB_loop K ?beta ?st (map (\<lambda>b. (b, False)) H @ (A, True) # rest) = dCOFB_loop K ?beta st3 rest"
    by blast
  from payload_phase [OF h(1), of P K ?beta Bn extra] obtain cP cn st5 where p:
    "length cP = length P"
    "COFB_loop K ?beta st3 (map (\<lambda>b. (b, False)) P @ (Bn, True) # extra) = Some st5"
    "st_out st5 = st_out st3 @ cP @ [cn]"
    "\<And>ou extra'. dCOFB_loop K ?beta (st3\<lparr>st_out := ou\<rparr>)
                               (map (\<lambda>c. (c, False)) cP @ (cn, True) # extra')
                             = Some (st5\<lparr>st_out := ou @ P @ [Bn]\<rparr>)"
    by blast
  have o3: "st_out st3 = []" using h(2) by (simp add: COFB_init_out)
  then have s3: "st3\<lparr>st_out := []\<rparr> = st3" by simp
  have enc: "COFB fs K N (map (\<lambda>b. (b, False)) H @ (A, True) # map (\<lambda>b. (b, False)) P @ (Bn, True) # extra)
        = Some (cP @ [cn], st_Y st5, st_field st5)"
    by (simp add: COFB_via_state h(3) p(2) p(3) o3)
  have dec: "dCOFB fs K N T0 (map (\<lambda>b. (b, False)) H @ (A, True) # map (\<lambda>c. (c, False)) cP @ (cn, True) # extra')
        = Some (P @ [Bn], st_Y st5, st_field st5)"
    using p(4) [of "[]" extra'] by (simp add: dCOFB_via_COFB_state h(4) s3)
  from enc dec p(1) show ?thesis by blast
qed

section \<open>The driver claims\<close>

lemma dCOFB_body_out:
  "st_exp st = 1 \<Longrightarrow> st_out (dCOFB_body K beta st rd) = st_out st"
  "st_exp st = 3 \<Longrightarrow> st_out (dCOFB_body K beta st rd) = st_out st @ [st_Y st XOR fst rd]"
  by (cases "snd rd"; simp add: dCOFB_body_def read_advance_def Let_def split_beta)+

lemma dCOFB_loop_out_3:
  "st_exp st = 3 \<Longrightarrow> dCOFB_loop K beta st rds = Some st' \<Longrightarrow>
     length (st_out st') \<le> length (st_out st) + length rds"
proof (induction rds arbitrary: st)
  case Nil
  then show ?case by simp
next
  case (Cons rd rds)
  let ?st1 = "dCOFB_body K beta st rd"
  show ?case
  proof (cases "snd rd")
    case True
    then have "st_exp ?st1 = 5"
      using Cons.prems by (simp add: dCOFB_body_exp exp_steps)
    then have "st' = ?st1"
      using Cons.prems by (simp add: dCOFB_loop_done)
    then show ?thesis
      using Cons.prems by (simp add: dCOFB_body_out)
  next
    case False
    then have e: "st_exp ?st1 = 3"
      using Cons.prems by (simp add: dCOFB_body_exp exp_steps)
    have "dCOFB_loop K beta ?st1 rds = Some st'"
      using Cons.prems by simp
    from Cons.IH [OF e this] show ?thesis
      using Cons.prems by (simp add: dCOFB_body_out)
  qed
qed

lemma dCOFB_loop_out_1:
  "st_exp st = 1 \<Longrightarrow> dCOFB_loop K beta st rds = Some st' \<Longrightarrow>
     length (st_out st') < length (st_out st) + length rds"
proof (induction rds arbitrary: st)
  case Nil
  then show ?case by simp
next
  case (Cons rd rds)
  let ?st1 = "dCOFB_body K beta st rd"
  have l: "dCOFB_loop K beta ?st1 rds = Some st'"
    using Cons.prems by simp
  show ?case
  proof (cases "snd rd")
    case True
    then have e: "st_exp ?st1 = 3"
      using Cons.prems by (simp add: dCOFB_body_exp exp_steps)
    from dCOFB_loop_out_3 [OF e l] show ?thesis
      using Cons.prems by (simp add: dCOFB_body_out)
  next
    case False
    then have e: "st_exp ?st1 = 1"
      using Cons.prems by (simp add: dCOFB_body_exp exp_steps)
    from Cons.IH [OF e l] show ?thesis
      using Cons.prems by (simp add: dCOFB_body_out)
  qed
qed

lemma dCOFB_emits_fewer:
  "dCOFB fs K N T rds = Some (ms, T', fs') \<Longrightarrow> length ms < length rds"
proof -
  assume a: "dCOFB fs K N T rds = Some (ms, T', fs')"
  then obtain st' where
    l: "dCOFB_loop K (fst (COFB_init fs K N)) (snd (COFB_init fs K N)) rds = Some st'"
    and m: "ms = st_out st'"
    by (auto simp add: dCOFB_via_COFB_state split: option.splits)
  from dCOFB_loop_out_1 [OF COFB_init_any(3) l] show ?thesis
    using m by (simp add: COFB_init_out)
qed

lemma dCOFB_two_reads:
  "map_option fst (dCOFB fs K N T [r1, r2]) \<noteq> Some [a, b]"
  "map_option fst (dCOFB fs K N T [r1, r2]) \<noteq> Some [a, b, c]"
  using dCOFB_emits_fewer [of fs K N T "[r1, r2]"] by (auto simp add: map_option_case split: option.splits)

text \<open>Every input with two boundary reads has the shape the round trip is stated for.\<close>

lemma reads_first_boundary:
  "1 \<le> length (filter snd rds) \<Longrightarrow>
     \<exists>H A rest. rds = map (\<lambda>b. (b, False)) H @ (A, True) # rest
               \<and> length (filter snd rest) + 1 = length (filter snd rds)"
proof (induction rds)
  case Nil
  then show ?case by simp
next
  case (Cons rd rds)
  obtain B f where rd: "rd = (B, f)" by (cases rd)
  show ?case
  proof (cases f)
    case True
    then show ?thesis
      using rd by (intro exI [of _ "[]"] exI [of _ B] exI [of _ rds]) simp
  next
    case False
    then have "1 \<le> length (filter snd rds)"
      using Cons.prems rd by simp
    from Cons.IH [OF this] obtain H A rest where
      "rds = map (\<lambda>b. (b, False)) H @ (A, True) # rest"
      "length (filter snd rest) + 1 = length (filter snd rds)"
      by blast
    then show ?thesis
      using rd False by (intro exI [of _ "B # H"] exI [of _ A] exI [of _ rest]) simp
  qed
qed

lemma reads_shape:
  assumes "2 \<le> length (filter snd rds)"
  shows "\<exists>H A P Bn extra.
           rds = map (\<lambda>b. (b, False)) H @ (A, True) # map (\<lambda>b. (b, False)) P @ (Bn, True) # extra"
proof -
  from assms have "1 \<le> length (filter snd rds)" by simp
  from reads_first_boundary [OF this] obtain H A rest where
    1: "rds = map (\<lambda>b. (b, False)) H @ (A, True) # rest"
       "length (filter snd rest) + 1 = length (filter snd rds)"
    by blast
  with assms have "1 \<le> length (filter snd rest)" by simp
  from reads_first_boundary [OF this] obtain P Bn extra where
    "rest = map (\<lambda>b. (b, False)) P @ (Bn, True) # extra"
    by blast
  with 1 show ?thesis by blast
qed

text \<open>
  C1 (amended). The drivers take every read before the first boundary, and the read at
  that boundary, without printing anything; ciphertext is printed only for the reads
  after it, up to and including the read at the second boundary. For every key, nonce
  and input of that shape (pre-payload blocks \<open>H\<close> and \<open>A\<close>, payload blocks \<open>P\<close> and
  \<open>Bn\<close>), \<open>COFB\<close> runs to its end and prints one ciphertext block per payload block;
  \<open>dCOFB\<close>, given the same pre-payload reads followed by these ciphertext blocks with
  the boundaries at the same places, prints exactly the payload blocks and returns the
  tag that \<open>COFB\<close> returned (whatever the module variables held at either entry and
  whatever tag it is passed).
\<close>

theorem COFB_round_trip:
  "\<exists>cP cn T fs1.
      COFB fs K N (map (\<lambda>b. (b, False)) H @ (A, True) # map (\<lambda>b. (b, False)) P @ (Bn, True) # extra)
        = Some (cP @ [cn], T, fs1)
      \<and> length cP = length P
      \<and> dCOFB fs' K N T0 (map (\<lambda>b. (b, False)) H @ (A, True) # map (\<lambda>c. (c, False)) cP @ (cn, True) # extra')
        = Some (P @ [Bn], T, fs1)"
  using round_trip_same_entry [of fs K N H A P Bn extra T0 extra']
  by (simp only: dCOFB_entry_indep [of fs' K N T0 _ fs])

lemma ex_enc:
  "\<exists>c1 c2 T fs1. COFB ex_fs ex_K ex_N ex_reads = Some ([c1, c2], T, fs1)"
proof -
  from round_trip_same_entry [of ex_fs ex_K ex_N "[]" "0x1111111111111111" "[0xAAAABBBBCCCCDDDD]" "0x2222222222222222" "[]" 0 "[]"]
  obtain cP cn T fs1 where
    "COFB ex_fs ex_K ex_N ex_reads = Some (cP @ [cn], T, fs1)" "length cP = 1"
    by (auto simp add: ex_reads_def)
  moreover then obtain c1 where "cP = [c1]"
    by (cases cP) auto
  ultimately show ?thesis by auto
qed

lemma dCOFB_two_boundary_reads:
  "\<exists>m T' fs'. dCOFB fs K N T [(c1, True), (c2, True)] = Some ([m], T', fs')"
proof -
  let ?beta = "fst (COFB_init fs K N)" and ?st = "snd (COFB_init fs K N)"
  let ?st3 = "dCOFB_body K ?beta ?st (c1, True)"
  let ?st5 = "dCOFB_body K ?beta ?st3 (c2, True)"
  have e1: "st_exp ?st = 1" by (rule COFB_init_any(3))
  then have e3: "st_exp ?st3 = 3" by (simp add: dCOFB_body_exp exp_steps)
  then have e5: "st_exp ?st5 = 5" by (simp add: dCOFB_body_exp exp_steps)
  have "dCOFB_loop K ?beta ?st [(c1, True), (c2, True)] = Some ?st5"
    using e1 e3 e5 by simp
  moreover have "st_out ?st5 = [st_Y ?st3 XOR c2]"
    using e1 e3 by (simp add: dCOFB_body_out COFB_init_out)
  ultimately show ?thesis
    by (simp add: dCOFB_via_COFB_state)
qed

text \<open>
  C1 as stated fails. With the three reads of \<open>ex_reads\<close> (one pre-payload block, two
  payload blocks) \<open>COFB\<close> prints two ciphertext blocks. \<open>dCOFB\<close> run under the same key
  and nonce on these two blocks alone, each ending at a boundary, takes the first as a
  pre-payload read and prints a single block: it prints neither the two payload blocks
  nor all three blocks of the input.
\<close>

theorem COFB_round_trip_counterexample:
  "map_option (length \<circ> fst) (COFB ex_fs ex_K ex_N ex_reads) = Some 2
   \<and> map_option (length \<circ> fst)
         (dCOFB ex_fs ex_K ex_N ex_T [(ex_cs ! 0, True), (ex_cs ! 1, True)]) = Some 1
   \<and> map_option fst (dCOFB ex_fs ex_K ex_N ex_T [(ex_cs ! 0, True), (ex_cs ! 1, True)])
        \<noteq> Some [0xAAAABBBBCCCCDDDD, 0x2222222222222222]
   \<and> map_option fst (dCOFB ex_fs ex_K ex_N ex_T [(ex_cs ! 0, True), (ex_cs ! 1, True)])
        \<noteq> Some [0x1111111111111111, 0xAAAABBBBCCCCDDDD, 0x2222222222222222]"
proof -
  from ex_enc have "map_option (length \<circ> fst) (COFB ex_fs ex_K ex_N ex_reads) = Some 2"
    by auto
  moreover from dCOFB_two_boundary_reads [of ex_fs ex_K ex_N ex_T "ex_cs ! 0" "ex_cs ! 1"]
  have "map_option (length \<circ> fst)
         (dCOFB ex_fs ex_K ex_N ex_T [(ex_cs ! 0, True), (ex_cs ! 1, True)]) = Some 1"
    by auto
  ultimately show ?thesis
    by (simp only: dCOFB_two_reads) simp
qed




text \<open>
  C4. For every key, nonce and input, what a call of \<open>COFB\<close> or \<open>dCOFB\<close> prints and
  returns (and the module variables it leaves) does not depend on the values that
  \<open>mx2\<close>, \<open>mx2x3\<close>, \<open>mx2x3x3\<close> hold at call entry. In particular a call that follows
  another call in the same process, and so starts from the values that call left,
  gives what it gives from freshly initialised variables.
\<close>

theorem field_state_entry_independent:
  "COFB fs K N rds = COFB fs' K N rds \<and> dCOFB fs K N T rds = dCOFB fs' K N T rds"
  using COFB_entry_indep dCOFB_entry_indep by blast








end
